theory Spec2Isabelle
  imports Main
begin

section \<open>The binary search tree of tree.hpp\<close>

text \<open>
  The header defines three class templates over a key type \<open>K\<close> and a value type \<open>V\<close>:
  \<open>BinaryTreeNode\<close>, \<open>BinaryTree\<close> and \<open>BinaryTreeIterator\<close>. A node owns its two
  children through raw pointers that may be null; here a possibly-null pointer to a node
  is a \<open>node option\<close> (\<open>None\<close> is \<open>nullptr\<close>), and a method of the node class is a
  function on a \<open>Node\<close>, since the source only calls it on a non-null \<open>this\<close>.
  Storage management (\<open>new\<close>, \<open>delete this\<close>, \<open>freetree\<close>) has no counterpart: the model
  keeps the values the pointers lead to.
\<close>

subsection \<open>Data\<close>

datatype ('k, 'v) BinaryTreeNode =
  Node (key: 'k) (val: 'v)
       (left: "('k, 'v) BinaryTreeNode option")
       (right: "('k, 'v) BinaryTreeNode option")

text \<open>\<open>BinaryTree\<close> has the single member \<open>root\<close>.\<close>

type_synonym ('k, 'v) BinaryTree = "('k, 'v) BinaryTreeNode option"

record ('k, 'v) BinaryTreeIterator =
  current :: "('k, 'v) BinaryTreeNode option"
  working_stack :: "('k, 'v) BinaryTreeNode list"

text \<open>The only exception of the header: \<open>std::logic_error\<close>, thrown by \<open>operator*\<close>.\<close>

datatype error = LogicError

text \<open>
  \<open>find\<close> and \<open>operator[]\<close> return a \<open>V&\<close> that aliases the \<open>value\<close> member of a node
  of the tree. The reference is modelled by the position of that node: the turns taken
  from the root.
\<close>

datatype dir = GoLeft | GoRight

type_synonym vref = "dir list"

text \<open>
  The comparisons the key type supplies. \<open>contains\<close> uses all three of \<open>==\<close>, \<open><\<close> and
  \<open>>\<close> and has no final \<open>else\<close>, so its model takes them explicitly.
\<close>

record 'k comparisons =
  k_eq :: "'k \<Rightarrow> 'k \<Rightarrow> bool"
  k_lt :: "'k \<Rightarrow> 'k \<Rightarrow> bool"
  k_gt :: "'k \<Rightarrow> 'k \<Rightarrow> bool"

definition std_ops :: "('k::linorder) comparisons" where
  "std_ops = \<lparr>k_eq = (=), k_lt = (<), k_gt = (\<lambda>a b. b < a)\<rparr>"

subsection \<open>BinaryTreeNode\<close>

text \<open>
  \<open>erase\<close>, the two-child branch: \<open>successor = left; while (successor->right) successor =
  successor->right;\<close>
\<close>

fun rightmost :: "('k, 'v) BinaryTreeNode \<Rightarrow> ('k, 'v) BinaryTreeNode" where
  "rightmost (Node nk nv l r) =
     (case r of None \<Rightarrow> Node nk nv l r | Some rn \<Rightarrow> rightmost rn)"

text \<open>
  \<open>erase\<close> returns the pointer its caller stores in place of the node: \<open>this\<close> when the
  node stays, a child when it is deleted.
\<close>

fun node_erase :: "'k::linorder \<Rightarrow> ('k, 'v) BinaryTreeNode \<Rightarrow> ('k, 'v) BinaryTreeNode option" where
  "node_erase k (Node nk nv l r) =
     (if k < nk then
        Some (Node nk nv (case l of None \<Rightarrow> None | Some ln \<Rightarrow> node_erase k ln) r)
      else if k > nk then
        Some (Node nk nv l (case r of None \<Rightarrow> None | Some rn \<Rightarrow> node_erase k rn))
      else
        (case l of
           None \<Rightarrow> r
         | Some ln \<Rightarrow>
             (case r of
                None \<Rightarrow> Some ln
              | Some rn \<Rightarrow>
                  (let successor = rightmost ln in
                   Some (Node (key successor) (val successor)
                           (node_erase (key successor) ln) (Some rn))))))"

text \<open>
  \<open>find\<close> creates the missing child with \<open>new BinaryTreeNode(k)\<close>, whose value is the
  default \<open>d\<close> of \<open>V\<close>, and then recurses into it. It returns the tree as it has become
  and the reference to the value found.
\<close>

function node_find ::
  "'v \<Rightarrow> 'k::linorder \<Rightarrow> ('k, 'v) BinaryTreeNode \<Rightarrow> ('k, 'v) BinaryTreeNode \<times> vref" where
  "node_find d k (Node nk nv l r) =
     (if k = nk then (Node nk nv l r, [])
      else if k < nk then
        (let l' = (case l of None \<Rightarrow> Node k d None None | Some ln \<Rightarrow> ln);
             (l'', p) = node_find d k l'
         in (Node nk nv (Some l'') r, GoLeft # p))
      else
        (let r' = (case r of None \<Rightarrow> Node k d None None | Some rn \<Rightarrow> rn);
             (r'', p) = node_find d k r'
         in (Node nk nv l (Some r''), GoRight # p)))"
  by pat_completeness auto
termination
  by (relation "measure (\<lambda>(d, k, n). if k = key n then 0 else size n)")
     (auto split: option.splits)

text \<open>
  \<open>contains\<close>: three tests and no return after them. \<open>None\<close> is the path on which
  control leaves the function without a return statement.
\<close>

fun node_contains :: "'k comparisons \<Rightarrow> 'k \<Rightarrow> ('k, 'v) BinaryTreeNode \<Rightarrow> bool option" where
  "node_contains ops k (Node nk nv l r) =
     (if k_eq ops k nk then Some True
      else if k_lt ops k nk then
        (case l of Some ln \<Rightarrow> node_contains ops k ln | None \<Rightarrow> Some False)
      else if k_gt ops k nk then
        (case r of Some rn \<Rightarrow> node_contains ops k rn | None \<Rightarrow> Some False)
      else None)"

subsection \<open>Reading and writing through a returned reference\<close>

fun ref_get :: "vref \<Rightarrow> ('k, 'v) BinaryTreeNode \<Rightarrow> 'v option" where
  "ref_get [] (Node nk nv l r) = Some nv"
| "ref_get (GoLeft # p) (Node nk nv l r) =
     (case l of None \<Rightarrow> None | Some ln \<Rightarrow> ref_get p ln)"
| "ref_get (GoRight # p) (Node nk nv l r) =
     (case r of None \<Rightarrow> None | Some rn \<Rightarrow> ref_get p rn)"

fun ref_set :: "vref \<Rightarrow> 'v \<Rightarrow> ('k, 'v) BinaryTreeNode \<Rightarrow> ('k, 'v) BinaryTreeNode" where
  "ref_set [] v (Node nk nv l r) = Node nk v l r"
| "ref_set (GoLeft # p) v (Node nk nv l r) =
     Node nk nv (case l of None \<Rightarrow> None | Some ln \<Rightarrow> Some (ref_set p v ln)) r"
| "ref_set (GoRight # p) v (Node nk nv l r) =
     Node nk nv l (case r of None \<Rightarrow> None | Some rn \<Rightarrow> Some (ref_set p v rn))"

subsection \<open>BinaryTree\<close>

definition tree_empty :: "('k, 'v) BinaryTree" where
  "tree_empty = None"

text \<open>\<open>operator[]\<close>\<close>

definition tree_index ::
  "'v \<Rightarrow> 'k::linorder \<Rightarrow> ('k, 'v) BinaryTree \<Rightarrow> ('k, 'v) BinaryTree \<times> vref" where
  "tree_index d k root =
     (let root' = (case root of None \<Rightarrow> Node k d None None | Some n \<Rightarrow> n);
          (root'', p) = node_find d k root'
      in (Some root'', p))"

text \<open>A reference returned by \<open>operator[]\<close> is relative to the root.\<close>

definition tree_ref_get :: "vref \<Rightarrow> ('k, 'v) BinaryTree \<Rightarrow> 'v option" where
  "tree_ref_get p root = (case root of None \<Rightarrow> None | Some n \<Rightarrow> ref_get p n)"

definition tree_ref_set :: "vref \<Rightarrow> 'v \<Rightarrow> ('k, 'v) BinaryTree \<Rightarrow> ('k, 'v) BinaryTree" where
  "tree_ref_set p v root = (case root of None \<Rightarrow> None | Some n \<Rightarrow> Some (ref_set p v n))"

text \<open>The statement \<open>t[k] = v\<close>.\<close>

definition tree_assign :: "'v \<Rightarrow> 'k::linorder \<Rightarrow> 'v \<Rightarrow> ('k, 'v) BinaryTree \<Rightarrow> ('k, 'v) BinaryTree" where
  "tree_assign d k v root =
     (let (root', p) = tree_index d k root in tree_ref_set p v root')"

definition tree_contains :: "'k::linorder \<Rightarrow> ('k, 'v) BinaryTree \<Rightarrow> bool option" where
  "tree_contains k root =
     (case root of None \<Rightarrow> Some False | Some n \<Rightarrow> node_contains std_ops k n)"

definition tree_erase :: "'k::linorder \<Rightarrow> ('k, 'v) BinaryTree \<Rightarrow> ('k, 'v) BinaryTree" where
  "tree_erase k root = (case root of None \<Rightarrow> None | Some n \<Rightarrow> node_erase k n)"

subsection \<open>BinaryTreeIterator\<close>

text \<open>The \<open>while\<close> loop of \<open>incr\<close>; it ends with \<open>current\<close> null and returns the stack.\<close>

function incr_loop ::
  "('k, 'v) BinaryTreeNode option \<Rightarrow> ('k, 'v) BinaryTreeNode list \<Rightarrow> ('k, 'v) BinaryTreeNode list" where
  "incr_loop None stk = stk"
| "incr_loop (Some n) stk = incr_loop (left n) (n # stk)"
  by pat_completeness auto
termination
proof (relation "measure (\<lambda>(c, stk). case c of None \<Rightarrow> 0 | Some n \<Rightarrow> size n)")
  show "wf (measure (\<lambda>(c, stk). case c of None \<Rightarrow> 0 | Some (n :: ('k, 'v) BinaryTreeNode) \<Rightarrow> size n))"
    by simp
next
  fix n :: "('k, 'v) BinaryTreeNode" and stk :: "('k, 'v) BinaryTreeNode list"
  show "((left n, n # stk), (Some n, stk))
        \<in> measure (\<lambda>(c, stk). case c of None \<Rightarrow> 0 | Some n \<Rightarrow> size n)"
    by (cases n) (simp split: option.splits)
qed

definition incr :: "('k, 'v) BinaryTreeIterator \<Rightarrow> ('k, 'v) BinaryTreeIterator" where
  "incr it =
     (case incr_loop (current it) (working_stack it) of
        [] \<Rightarrow> \<lparr>current = None, working_stack = []\<rparr>
      | n # rest \<Rightarrow> \<lparr>current = Some n, working_stack = rest\<rparr>)"

text \<open>The constructor \<open>BinaryTreeIterator(root, start)\<close>.\<close>

definition iterator_new :: "('k, 'v) BinaryTree \<Rightarrow> bool \<Rightarrow> ('k, 'v) BinaryTreeIterator" where
  "iterator_new root start =
     (if start \<and> root \<noteq> None then incr \<lparr>current = root, working_stack = []\<rparr>
      else \<lparr>current = None, working_stack = []\<rparr>)"

text \<open>\<open>operator!=\<close>\<close>

definition op_neq :: "('k, 'v) BinaryTreeIterator \<Rightarrow> ('k, 'v) BinaryTreeIterator \<Rightarrow> bool" where
  "op_neq it other =
     (let curEnd = (current it = None \<and> working_stack it = []);
          otherEnd = (current other = None \<and> working_stack other = [])
      in \<not> (curEnd \<and> otherEnd))"

text \<open>\<open>operator++\<close>\<close>

definition op_incr :: "('k, 'v) BinaryTreeIterator \<Rightarrow> ('k, 'v) BinaryTreeIterator" where
  "op_incr it = incr it"

text \<open>
  \<open>operator*\<close> returns the pair or throws; the second component is the iterator as the
  call leaves it. The body assigns to no member.
\<close>

definition op_deref ::
  "('k, 'v) BinaryTreeIterator \<Rightarrow> (error + 'k \<times> 'v) \<times> ('k, 'v) BinaryTreeIterator" where
  "op_deref it =
     (case current it of
        Some n \<Rightarrow> (Inr (key n, val n), it)
      | None \<Rightarrow> (Inl LogicError, it))"

definition tree_begin :: "('k, 'v) BinaryTree \<Rightarrow> ('k, 'v) BinaryTreeIterator" where
  "tree_begin root = iterator_new root True"

definition tree_end :: "('k, 'v) BinaryTree \<Rightarrow> ('k, 'v) BinaryTreeIterator" where
  "tree_end root = iterator_new root False"

subsection \<open>The traversal loop\<close>

text \<open>
  The traversal the iterators exist for is the client's loop
  \<open>for (auto it = t.begin(); it != t.end(); ++it) { ... *it ... }\<close>.
  The loop need not end, so it runs on fuel: the result is the list of pairs yielded so
  far and how the run stopped.
\<close>

datatype stop = Finished | OutOfFuel | Thrown error

fun traverse ::
  "nat \<Rightarrow> ('k, 'v) BinaryTreeIterator \<Rightarrow> ('k, 'v) BinaryTreeIterator \<Rightarrow> ('k \<times> 'v) list \<times> stop" where
  "traverse 0 it e = (if op_neq it e then ([], OutOfFuel) else ([], Finished))"
| "traverse (Suc fuel) it e =
     (if op_neq it e then
        (case op_deref it of
           (Inl err, it') \<Rightarrow> ([], Thrown err)
         | (Inr kv, it') \<Rightarrow>
             (let (kvs, s) = traverse fuel (op_incr it') e in (kv # kvs, s)))
      else ([], Finished))"

definition tree_traverse :: "nat \<Rightarrow> ('k, 'v) BinaryTree \<Rightarrow> ('k \<times> 'v) list \<times> stop" where
  "tree_traverse fuel root = traverse fuel (tree_begin root) (tree_end root)"

subsection \<open>What a tree stores\<close>

fun node_entries :: "('k, 'v) BinaryTreeNode \<Rightarrow> ('k \<times> 'v) set" where
  "node_entries (Node nk nv l r) =
     insert (nk, nv)
       ((case l of None \<Rightarrow> {} | Some ln \<Rightarrow> node_entries ln) \<union>
        (case r of None \<Rightarrow> {} | Some rn \<Rightarrow> node_entries rn))"

definition tree_entries :: "('k, 'v) BinaryTree \<Rightarrow> ('k \<times> 'v) set" where
  "tree_entries root = (case root of None \<Rightarrow> {} | Some n \<Rightarrow> node_entries n)"

definition tree_keys :: "('k, 'v) BinaryTree \<Rightarrow> 'k set" where
  "tree_keys root = fst ` tree_entries root"

fun node_count :: "('k, 'v) BinaryTreeNode \<Rightarrow> nat" where
  "node_count (Node nk nv l r) =
     Suc ((case l of None \<Rightarrow> 0 | Some ln \<Rightarrow> node_count ln) +
          (case r of None \<Rightarrow> 0 | Some rn \<Rightarrow> node_count rn))"

definition tree_count :: "('k, 'v) BinaryTree \<Rightarrow> nat" where
  "tree_count root = (case root of None \<Rightarrow> 0 | Some n \<Rightarrow> node_count n)"

text \<open>
  The ordering invariant: at every node, the keys of the left subtree are below the node's
  key and the keys of the right subtree above it.
\<close>

fun node_bst :: "('k::linorder, 'v) BinaryTreeNode \<Rightarrow> bool" where
  "node_bst (Node nk nv l r) =
     ((case l of None \<Rightarrow> True
       | Some ln \<Rightarrow> node_bst ln \<and> (\<forall>x \<in> fst ` node_entries ln. x < nk)) \<and>
      (case r of None \<Rightarrow> True
       | Some rn \<Rightarrow> node_bst rn \<and> (\<forall>x \<in> fst ` node_entries rn. nk < x)))"

definition bst :: "('k::linorder, 'v) BinaryTree \<Rightarrow> bool" where
  "bst root = (case root of None \<Rightarrow> True | Some n \<Rightarrow> node_bst n)"

text \<open>The condition the header's documentation puts on \<open>K\<close>.\<close>

definition trichotomy :: "'k comparisons \<Rightarrow> bool" where
  "trichotomy ops =
     (\<forall>a b. (k_lt ops a b \<and> \<not> k_eq ops a b \<and> \<not> k_gt ops a b) \<or>
            (\<not> k_lt ops a b \<and> k_eq ops a b \<and> \<not> k_gt ops a b) \<or>
            (\<not> k_lt ops a b \<and> \<not> k_eq ops a b \<and> k_gt ops a b))"

text \<open>A tree built by \<open>t[k]\<close> for each key of a list, in order.\<close>

definition inserts :: "'v \<Rightarrow> ('k::linorder) list \<Rightarrow> ('k, 'v) BinaryTree \<Rightarrow> ('k, 'v) BinaryTree" where
  "inserts d ks root = fold (\<lambda>k t. fst (tree_index d k t)) ks root"

text \<open>
  The tree of the documented scenario: the keys 5, 3, 8, 1, 4 inserted in this order
  into an empty tree of integers, every value the default 0.
\<close>

definition scenario_left :: "(int, int) BinaryTreeNode" where
  "scenario_left = Node 3 0 (Some (Node 1 0 None None)) (Some (Node 4 0 None None))"

definition scenario_right :: "(int, int) BinaryTreeNode" where
  "scenario_right = Node 8 0 None None"

definition scenario_tree :: "(int, int) BinaryTree" where
  "scenario_tree = Some (Node 5 0 (Some scenario_left) (Some scenario_right))"

section \<open>Properties\<close>

subsection \<open>Trees as possibly-null pointers\<close>

lemma tree_induct [case_names Empty Node]:
  assumes "P None" and "\<And>nk nv l r. P l \<Longrightarrow> P r \<Longrightarrow> P (Some (Node nk nv l r))"
  shows "P t"
proof -
  have "P (Some n)" for n
  proof (induction n)
    case (Node nk nv l r)
    have "P l" using Node(1) assms(1) by (cases l) auto
    moreover have "P r" using Node(2) assms(1) by (cases r) auto
    ultimately show ?case by (rule assms(2))
  qed
  then show ?thesis using assms(1) by (cases t) auto
qed

lemma tree_entries_simps [simp]:
  "tree_entries None = {}"
  "tree_entries (Some (Node nk nv l r)) = insert (nk, nv) (tree_entries l \<union> tree_entries r)"
  by (simp_all add: tree_entries_def split: option.splits)

lemma tree_keys_simps [simp]:
  "tree_keys None = {}"
  "tree_keys (Some (Node nk nv l r)) = insert nk (tree_keys l \<union> tree_keys r)"
  by (simp_all add: tree_keys_def image_Un)

lemma tree_count_simps [simp]:
  "tree_count None = 0"
  "tree_count (Some (Node nk nv l r)) = Suc (tree_count l + tree_count r)"
  by (simp_all add: tree_count_def split: option.splits)

lemma bst_simps [simp]:
  "bst None"
  "bst (Some (Node nk nv l r)) =
     (bst l \<and> bst r \<and> (\<forall>x \<in> tree_keys l. x < nk) \<and> (\<forall>x \<in> tree_keys r. nk < x))"
  by (auto simp: bst_def tree_keys_def tree_entries_def split: option.splits)

lemma tree_erase_simps:
  "tree_erase k None = None"
  "tree_erase k (Some (Node nk nv l r)) =
     (if k < nk then Some (Node nk nv (tree_erase k l) r)
      else if k > nk then Some (Node nk nv l (tree_erase k r))
      else (case l of
              None \<Rightarrow> r
            | Some ln \<Rightarrow>
                (case r of
                   None \<Rightarrow> l
                 | Some rn \<Rightarrow>
                     Some (Node (key (rightmost ln)) (val (rightmost ln))
                             (tree_erase (key (rightmost ln)) l) r))))"
  by (simp_all add: tree_erase_def Let_def split: option.splits)

lemma tree_contains_simps:
  "tree_contains k None = Some False"
  "tree_contains k (Some (Node nk nv l r)) =
     (if k = nk then Some True
      else if k < nk then tree_contains k l
      else tree_contains k r)"
  by (auto simp: tree_contains_def std_ops_def split: option.splits)

lemma finite_tree_entries [simp]: "finite (tree_entries t)"
  by (induction t rule: tree_induct) auto

lemma finite_tree_keys [simp]: "finite (tree_keys t)"
  by (simp add: tree_keys_def)

lemma tree_contains_keys: "bst t \<Longrightarrow> tree_contains k t = Some (k \<in> tree_keys t)"
  by (induction t rule: tree_induct) (auto simp: tree_contains_simps)

lemma rightmost_entry: "(key (rightmost n), val (rightmost n)) \<in> node_entries n"
  by (induction n rule: rightmost.induct) (auto split: option.splits)

lemma rightmost_key: "key (rightmost n) \<in> tree_keys (Some n)"
  using rightmost_entry[of n] by (force simp: tree_keys_def tree_entries_def)

lemma rightmost_right [simp]: "right (rightmost n) = None"
  by (induction n rule: rightmost.induct) (auto split: option.splits)

lemma rightmost_max: "bst (Some n) \<Longrightarrow> x \<in> tree_keys (Some n) \<Longrightarrow> x \<le> key (rightmost n)"
proof (induction n rule: rightmost.induct)
  case (1 nk nv l r)
  show ?case
  proof (cases r)
    case None
    with 1(2,3) show ?thesis by auto
  next
    case (Some rn)
    have rm: "nk < key (rightmost rn)" using 1(2) Some rightmost_key[of rn] by auto
    from 1(3) consider "x = nk" | "x \<in> tree_keys l" | "x \<in> tree_keys (Some rn)" using Some by auto
    then show ?thesis
    proof cases
      case 1 then show ?thesis using rm Some by simp
    next
      case 2 then show ?thesis using rm Some 1(2) by (auto simp: less_imp_le dest: bspec)
    next
      case 3 then show ?thesis using 1(1)[OF Some] 1(2) Some by simp
    qed
  qed
qed

lemma tree_keys_erase: "bst t \<Longrightarrow> tree_keys (tree_erase k t) = tree_keys t - {k}"
proof (induction t arbitrary: k rule: tree_induct)
  case Empty show ?case by (simp add: tree_erase_simps)
next
  case (Node nk nv l r)
  from Node.prems have bl: "bst l" and br: "bst r"
    and ll: "\<forall>x \<in> tree_keys l. x < nk" and rr: "\<forall>x \<in> tree_keys r. nk < x" by auto
  consider "k < nk" | "nk < k" | "k = nk" by (rule linorder_cases)
  then show ?case
  proof cases
    case 1
    then show ?thesis using Node.IH(1)[OF bl, of k] ll rr by (auto simp: tree_erase_simps)
  next
    case 2
    then show ?thesis using Node.IH(2)[OF br, of k] ll rr by (auto simp: tree_erase_simps)
  next
    case 3
    show ?thesis
    proof (cases l)
      case None
      then show ?thesis using 3 rr by (auto simp: tree_erase_simps)
    next
      case (Some ln)
      note l = this
      show ?thesis
      proof (cases r)
        case None
        then show ?thesis using 3 l ll by (auto simp: tree_erase_simps)
      next
        case (Some rn)
        let ?m = "key (rightmost ln)"
        have m: "?m \<in> tree_keys l" using rightmost_key[of ln] l by simp
        have "tree_keys (tree_erase ?m l) = tree_keys l - {?m}" by (rule Node.IH(1)[OF bl])
        then show ?thesis using 3 l Some m ll rr by (auto simp: tree_erase_simps)
      qed
    qed
  qed
qed

lemma bst_erase: "bst t \<Longrightarrow> bst (tree_erase k t)"
proof (induction t arbitrary: k rule: tree_induct)
  case Empty show ?case by (simp add: tree_erase_simps)
next
  case (Node nk nv l r)
  from Node.prems have bl: "bst l" and br: "bst r"
    and ll: "\<forall>x \<in> tree_keys l. x < nk" and rr: "\<forall>x \<in> tree_keys r. nk < x" by auto
  consider "k < nk" | "nk < k" | "k = nk" by (rule linorder_cases)
  then show ?case
  proof cases
    case 1
    then show ?thesis using Node.IH(1)[OF bl, of k] bl br ll rr
      by (auto simp: tree_erase_simps tree_keys_erase)
  next
    case 2
    then show ?thesis using Node.IH(2)[OF br, of k] bl br ll rr
      by (auto simp: tree_erase_simps tree_keys_erase)
  next
    case 3
    show ?thesis
    proof (cases l)
      case None
      then show ?thesis using 3 br by (simp add: tree_erase_simps)
    next
      case (Some ln)
      note l = this
      show ?thesis
      proof (cases r)
        case None
        then show ?thesis using 3 l bl by (simp add: tree_erase_simps)
      next
        case (Some rn)
        let ?m = "key (rightmost ln)"
        have m: "?m \<in> tree_keys l" using rightmost_key[of ln] l by simp
        have mx: "\<forall>x \<in> tree_keys l. x \<le> ?m" using rightmost_max[of ln] bl l by simp
        have b': "bst (tree_erase ?m l)" by (rule Node.IH(1)[OF bl])
        have k': "tree_keys (tree_erase ?m l) = tree_keys l - {?m}" by (rule tree_keys_erase[OF bl])
        have lt: "\<forall>x \<in> tree_keys (tree_erase ?m l). x < ?m" using mx k' by auto
        have gt: "\<forall>x \<in> tree_keys r. ?m < x" using m ll rr by (meson less_trans)
        show ?thesis using 3 l Some b' br lt gt by (simp add: tree_erase_simps)
      qed
    qed
  qed
qed

lemma tree_erase_absent: "k \<notin> tree_keys t \<Longrightarrow> tree_erase k t = t"
  by (induction t rule: tree_induct) (auto simp: tree_erase_simps)

lemma entries_lt: "\<forall>x \<in> tree_keys t. x < b \<Longrightarrow> \<forall>e \<in> tree_entries t. fst e < b"
  by (simp add: tree_keys_def)

lemma entries_gt: "\<forall>x \<in> tree_keys t. b < x \<Longrightarrow> \<forall>e \<in> tree_entries t. b < fst e"
  by (simp add: tree_keys_def)

lemma bst_entries_unique:
  "bst t \<Longrightarrow> (a, b) \<in> tree_entries t \<Longrightarrow> (a, c) \<in> tree_entries t \<Longrightarrow> b = c"
proof (induction t rule: tree_induct)
  case Empty then show ?case by simp
next
  case (Node nk nv l r)
  from Node.prems(1) have bl: "bst l" and br: "bst r"
    and ll: "\<forall>x \<in> tree_keys l. x < nk" and rr: "\<forall>x \<in> tree_keys r. nk < x" by auto
  have kl: "\<forall>e \<in> tree_entries l. fst e < nk" using ll by (rule entries_lt)
  have kr: "\<forall>e \<in> tree_entries r. nk < fst e" using rr by (rule entries_gt)
  show ?case using Node.IH(1)[OF bl] Node.IH(2)[OF br] Node.prems(2,3) kl kr by fastforce
qed

lemma filter_ne_all: "\<forall>e \<in> A. fst e \<noteq> k \<Longrightarrow> {e \<in> A. fst e \<noteq> k} = A"
  by auto

lemma filter_ne_node:
  "{e \<in> tree_entries (Some (Node nk nv l r)). fst e \<noteq> k} =
     (if nk = k then {} else {(nk, nv)}) \<union>
     {e \<in> tree_entries l. fst e \<noteq> k} \<union> {e \<in> tree_entries r. fst e \<noteq> k}"
  by auto

lemma tree_entries_erase:
  "bst t \<Longrightarrow> tree_entries (tree_erase k t) = {e \<in> tree_entries t. fst e \<noteq> k}"
proof (induction t arbitrary: k rule: tree_induct)
  case Empty show ?case by (simp add: tree_erase_simps)
next
  case (Node nk nv l r)
  from Node.prems have bl: "bst l" and br: "bst r"
    and ll: "\<forall>x \<in> tree_keys l. x < nk" and rr: "\<forall>x \<in> tree_keys r. nk < x" by auto
  have kl: "\<forall>e \<in> tree_entries l. fst e < nk" using ll by (rule entries_lt)
  have kr: "\<forall>e \<in> tree_entries r. nk < fst e" using rr by (rule entries_gt)
  consider "k < nk" | "nk < k" | "k = nk" by (rule linorder_cases)
  then show ?case
  proof cases
    case 1
    have "\<forall>e \<in> tree_entries r. fst e \<noteq> k" using kr 1 by auto
    then have "{e \<in> tree_entries r. fst e \<noteq> k} = tree_entries r" by (rule filter_ne_all)
    moreover have "nk \<noteq> k" using 1 by simp
    ultimately show ?thesis unfolding filter_ne_node using 1 Node.IH(1)[OF bl, of k]
      by (simp add: tree_erase_simps)
  next
    case 2
    have "\<forall>e \<in> tree_entries l. fst e \<noteq> k" using kl 2 by auto
    then have "{e \<in> tree_entries l. fst e \<noteq> k} = tree_entries l" by (rule filter_ne_all)
    moreover have "nk \<noteq> k" "\<not> k < nk" using 2 by simp_all
    ultimately show ?thesis unfolding filter_ne_node using 2 Node.IH(2)[OF br, of k]
      by (simp add: tree_erase_simps)
  next
    case 3
    have "\<forall>e \<in> tree_entries l. fst e \<noteq> k" using kl 3 by auto
    then have fl: "{e \<in> tree_entries l. fst e \<noteq> k} = tree_entries l" by (rule filter_ne_all)
    have "\<forall>e \<in> tree_entries r. fst e \<noteq> k" using kr 3 by auto
    then have fr: "{e \<in> tree_entries r. fst e \<noteq> k} = tree_entries r" by (rule filter_ne_all)
    have rhs: "{e \<in> tree_entries (Some (Node nk nv l r)). fst e \<noteq> k} = tree_entries l \<union> tree_entries r"
      unfolding filter_ne_node using 3 fl fr by simp
    show ?thesis
    proof (cases l)
      case None
      then show ?thesis using 3 rhs by (simp add: tree_erase_simps)
    next
      case (Some ln)
      note l = this
      show ?thesis
      proof (cases r)
        case None
        then show ?thesis using 3 l rhs by (simp add: tree_erase_simps)
      next
        case (Some rn)
        let ?m = "key (rightmost ln)" and ?v = "val (rightmost ln)"
        have m: "(?m, ?v) \<in> tree_entries l" using rightmost_entry[of ln] l by (simp add: tree_entries_def)
        have u: "\<forall>e \<in> tree_entries l. fst e = ?m \<longrightarrow> e = (?m, ?v)"
        proof (intro ballI impI)
          fix e assume "e \<in> tree_entries l" and "fst e = ?m"
          then have "(?m, snd e) \<in> tree_entries l" by (metis prod.collapse)
          then have "snd e = ?v" using m by (rule bst_entries_unique[OF bl])
          then show "e = (?m, ?v)" using \<open>fst e = ?m\<close> by (metis prod.collapse)
        qed
        have e: "tree_entries (tree_erase ?m l) = {e \<in> tree_entries l. fst e \<noteq> ?m}"
          by (rule Node.IH(1)[OF bl])
        have "insert (?m, ?v) {e \<in> tree_entries l. fst e \<noteq> ?m} = tree_entries l"
          using m u by blast
        then have ins: "insert (?m, ?v) (tree_entries (tree_erase ?m l)) = tree_entries l"
          using e by simp
        have "tree_entries (tree_erase k (Some (Node nk nv l r))) =
                insert (?m, ?v) (tree_entries (tree_erase ?m l)) \<union> tree_entries r"
          using 3 l Some by (simp add: tree_erase_simps)
        then show ?thesis unfolding ins rhs .
      qed
    qed
  qed
qed

subsection \<open>Lookup with creation, and assignment through the reference\<close>

lemma tree_index_simps:
  "tree_index d k None = (Some (Node k d None None), [])"
  "tree_index d k (Some (Node nk nv l r)) =
     (if k = nk then (Some (Node nk nv l r), [])
      else if k < nk then
        (Some (Node nk nv (fst (tree_index d k l)) r), GoLeft # snd (tree_index d k l))
      else
        (Some (Node nk nv l (fst (tree_index d k r))), GoRight # snd (tree_index d k r)))"
  by (simp_all add: tree_index_def Let_def split: option.splits prod.splits)

lemma tree_ref_set_simps:
  "tree_ref_set p v None = None"
  "tree_ref_set [] v (Some (Node nk nv l r)) = Some (Node nk v l r)"
  "tree_ref_set (GoLeft # p) v (Some (Node nk nv l r)) = Some (Node nk nv (tree_ref_set p v l) r)"
  "tree_ref_set (GoRight # p) v (Some (Node nk nv l r)) = Some (Node nk nv l (tree_ref_set p v r))"
  by (simp_all add: tree_ref_set_def split: option.splits)

lemma tree_ref_get_simps:
  "tree_ref_get p None = None"
  "tree_ref_get [] (Some (Node nk nv l r)) = Some nv"
  "tree_ref_get (GoLeft # p) (Some (Node nk nv l r)) = tree_ref_get p l"
  "tree_ref_get (GoRight # p) (Some (Node nk nv l r)) = tree_ref_get p r"
  by (simp_all add: tree_ref_get_def split: option.splits)

lemma tree_assign_simps:
  "tree_assign d k v None = Some (Node k v None None)"
  "tree_assign d k v (Some (Node nk nv l r)) =
     (if k = nk then Some (Node nk v l r)
      else if k < nk then Some (Node nk nv (tree_assign d k v l) r)
      else Some (Node nk nv l (tree_assign d k v r)))"
  by (simp_all add: tree_assign_def tree_index_simps tree_ref_set_simps split: prod.splits)

lemma tree_keys_index: "tree_keys (fst (tree_index d k t)) = insert k (tree_keys t)"
  by (induction t rule: tree_induct) (auto simp: tree_index_simps)

lemma bst_index: "bst t \<Longrightarrow> bst (fst (tree_index d k t))"
  by (induction t rule: tree_induct) (auto simp: tree_index_simps tree_keys_index)

lemma tree_index_present: "bst t \<Longrightarrow> k \<in> tree_keys t \<Longrightarrow> fst (tree_index d k t) = t"
  by (induction t rule: tree_induct) (auto simp: tree_index_simps)

lemma tree_index_absent:
  "k \<notin> tree_keys t \<Longrightarrow>
     tree_entries (fst (tree_index d k t)) = insert (k, d) (tree_entries t) \<and>
     tree_count (fst (tree_index d k t)) = Suc (tree_count t)"
  by (induction t rule: tree_induct) (auto simp: tree_index_simps)

lemma tree_keys_ref_set: "tree_keys (tree_ref_set p v t) = tree_keys t"
proof (induction t arbitrary: p rule: tree_induct)
  case Empty show ?case by (simp add: tree_ref_set_simps)
next
  case (Node nk nv l r)
  show ?case
  proof (cases p)
    case Nil then show ?thesis by (simp add: tree_ref_set_simps)
  next
    case (Cons a q)
    then show ?thesis using Node.IH by (cases a) (simp_all add: tree_ref_set_simps)
  qed
qed

lemma bst_ref_set: "bst t \<Longrightarrow> bst (tree_ref_set p v t)"
proof (induction t arbitrary: p rule: tree_induct)
  case Empty show ?case by (simp add: tree_ref_set_simps)
next
  case (Node nk nv l r)
  show ?case
  proof (cases p)
    case Nil then show ?thesis using Node.prems by (simp add: tree_ref_set_simps)
  next
    case (Cons a q)
    then show ?thesis using Node.IH Node.prems
      by (cases a) (simp_all add: tree_ref_set_simps tree_keys_ref_set)
  qed
qed

lemma tree_contains_ref_set: "tree_contains k (tree_ref_set p v t) = tree_contains k t"
proof (induction t arbitrary: p rule: tree_induct)
  case Empty show ?case by (simp add: tree_ref_set_simps)
next
  case (Node nk nv l r)
  show ?case
  proof (cases p)
    case Nil then show ?thesis by (simp add: tree_ref_set_simps tree_contains_simps)
  next
    case (Cons a q)
    then show ?thesis using Node.IH
      by (cases a) (simp_all add: tree_ref_set_simps tree_contains_simps)
  qed
qed

lemma tree_contains_index: "tree_contains k (fst (tree_index d k t)) = Some True"
  by (induction t rule: tree_induct) (auto simp: tree_index_simps tree_contains_simps)

lemma tree_contains_assign: "tree_contains k (tree_assign d k v t) = Some True"
  by (induction t rule: tree_induct) (auto simp: tree_assign_simps tree_contains_simps)

lemma tree_entries_assign_mem: "(k, v) \<in> tree_entries (tree_assign d k v t)"
  by (induction t rule: tree_induct) (auto simp: tree_assign_simps)

lemma tree_ref_get_index:
  "tree_ref_get (snd (tree_index d k t)) (fst (tree_index d k t)) = Some x \<Longrightarrow>
     (k, x) \<in> tree_entries (fst (tree_index d k t))"
  by (induction t rule: tree_induct) (auto simp: tree_index_simps tree_ref_get_simps split: if_splits)

lemma tree_ref_get_index_total:
  "\<exists>x. tree_ref_get (snd (tree_index d k t)) (fst (tree_index d k t)) = Some x"
  by (induction t rule: tree_induct) (auto simp: tree_index_simps tree_ref_get_simps)

lemma bst_assign: "bst t \<Longrightarrow> bst (tree_assign d k v t)"
  by (simp add: tree_assign_def split: prod.splits)
     (metis bst_index bst_ref_set fst_conv)

subsection \<open>The iterator and the traversal loop\<close>

lemma incr_loop_shape:
  "\<exists>m rest. incr_loop (Some n) stk = m # rest \<and> left m = None \<and>
             (key m, val m) \<in> node_entries n"
proof (induction n arbitrary: stk)
  case (Node nk nv l r)
  show ?case
  proof (cases l)
    case None
    then show ?thesis by simp
  next
    case (Some ln)
    then obtain m rest where "incr_loop (Some ln) (Node nk nv l r # stk) = m # rest"
      and "left m = None" and "(key m, val m) \<in> node_entries ln"
      using Node.IH(1)[of ln "Node nk nv l r # stk"] by auto
    then show ?thesis using Some by simp
  qed
qed

lemma incr_stay:
  assumes "current it = Some m" and "left m = None"
  shows "incr it = it"
  using assms by (simp add: incr_def)

lemma tree_begin_None [simp]: "tree_begin None = \<lparr>current = None, working_stack = []\<rparr>"
  by (simp add: tree_begin_def iterator_new_def)

lemma tree_end_eq [simp]: "tree_end root = \<lparr>current = None, working_stack = []\<rparr>"
  by (simp add: tree_end_def iterator_new_def)

lemma tree_begin_Some:
  "\<exists>m. current (tree_begin (Some n)) = Some m \<and> left m = None \<and>
       (key m, val m) \<in> node_entries n"
proof -
  obtain m rest where "incr_loop (Some n) [] = m # rest"
    and "left m = None" and "(key m, val m) \<in> node_entries n"
    using incr_loop_shape[of n "[]"] by auto
  then show ?thesis by (simp add: tree_begin_def iterator_new_def incr_def)
qed

lemma tree_begin_stay: "op_incr (tree_begin (Some n)) = tree_begin (Some n)"
  using tree_begin_Some[of n] by (auto simp: op_incr_def intro: incr_stay)

lemma traverse_stay:
  assumes "op_incr it = it" and "current it = Some m"
  shows "traverse fuel it \<lparr>current = None, working_stack = []\<rparr> =
           (replicate fuel (key m, val m), OutOfFuel)"
  using assms by (induction fuel) (simp_all add: op_neq_def op_deref_def)

lemma tree_traverse_None: "tree_traverse fuel None = ([], Finished)"
  by (cases fuel) (simp_all add: tree_traverse_def op_neq_def)

lemma tree_traverse_Some:
  "\<exists>m. current (tree_begin (Some n)) = Some m \<and> (key m, val m) \<in> node_entries n \<and>
       tree_traverse fuel (Some n) = (replicate fuel (key m, val m), OutOfFuel)"
proof -
  obtain m where m: "current (tree_begin (Some n)) = Some m" "(key m, val m) \<in> node_entries n"
    using tree_begin_Some[of n] by auto
  have "tree_traverse fuel (Some n) = (replicate fuel (key m, val m), OutOfFuel)"
    unfolding tree_traverse_def tree_end_eq
    using tree_begin_stay m(1) by (rule traverse_stay)
  then show ?thesis using m by blast
qed

lemma tree_traverse_entries: "set (fst (tree_traverse fuel t)) \<subseteq> tree_entries t"
proof (cases t)
  case None
  then show ?thesis by (simp add: tree_traverse_None)
next
  case (Some n)
  then show ?thesis using tree_traverse_Some[of n fuel] by (auto simp: tree_entries_def)
qed

lemma round_trip_storage:
  "tree_contains k (tree_assign d k v t) = Some True \<and>
   (k, v) \<in> tree_entries (tree_assign d k v t) \<and>
   (k \<notin> tree_keys t \<longrightarrow> tree_count (fst (tree_index d k t)) = Suc (tree_count t)) \<and>
   (bst t \<and> k \<in> tree_keys t \<longrightarrow> fst (tree_index d k t) = t)"
  using tree_contains_assign[of k d v t] tree_entries_assign_mem[of k v d t]
    tree_index_absent[of k t d] tree_index_present[of t k d]
  by blast

subsection \<open>The documented scenario\<close>

lemmas scenario_defs = scenario_tree_def scenario_left_def scenario_right_def

lemma inserts_scenario: "inserts 0 [5, 3, 8, 1, 4] tree_empty = scenario_tree"
  by (simp add: scenario_defs inserts_def tree_empty_def tree_index_simps)

lemma bst_scenario: "bst scenario_tree"
  by (simp add: scenario_defs)

lemma begin_scenario: "current (tree_begin scenario_tree) = Some (Node 1 0 None None)"
  by (simp add: scenario_defs tree_begin_def iterator_new_def incr_def)

lemma rightmost_Max:
  assumes "bst (Some n)"
  shows "key (rightmost n) = Max (tree_keys (Some n))"
proof (rule sym, rule Max_eqI)
  show "finite (tree_keys (Some n))" by simp
  show "\<And>y. y \<in> tree_keys (Some n) \<Longrightarrow> y \<le> key (rightmost n)"
    using assms by (rule rightmost_max)
  show "key (rightmost n) \<in> tree_keys (Some n)" by (rule rightmost_key)
qed

subsection \<open>Comparisons that satisfy trichotomy\<close>

lemma node_contains_step:
  assumes "trichotomy ops"
  shows "node_contains ops k (Node nk nv l r) =
     (if k_eq ops k nk then Some True
      else if k_lt ops k nk then
        (case l of None \<Rightarrow> Some False | Some ln \<Rightarrow> node_contains ops k ln)
      else (case r of None \<Rightarrow> Some False | Some rn \<Rightarrow> node_contains ops k rn))"
proof -
  have "k_lt ops k nk \<or> k_eq ops k nk \<or> k_gt ops k nk"
    using assms unfolding trichotomy_def by blast
  then show ?thesis by (auto split: option.splits)
qed

lemma node_contains_total:
  assumes "trichotomy ops"
  shows "\<exists>b. node_contains ops k n = Some b"
proof (induction n)
  case (Node nk nv l r)
  show ?case unfolding node_contains_step[OF assms]
    using Node.IH by (auto split: option.splits)
qed

lemma node_contains_True:
  assumes "trichotomy ops"
  shows "node_contains ops k n = Some True \<Longrightarrow> \<exists>e \<in> node_entries n. k_eq ops k (fst e)"
proof (induction n)
  case (Node nk nv l r)
  from Node.prems show ?case unfolding node_contains_step[OF assms]
    using Node.IH by (fastforce split: option.splits if_splits)
qed

lemma trichotomy_std_ops: "trichotomy (std_ops :: ('k::linorder) comparisons)"
  by (auto simp: trichotomy_def std_ops_def)

text \<open>Without trichotomy the path without a return statement is taken.\<close>

lemma node_contains_falls_through:
  "node_contains \<lparr>k_eq = (\<lambda>a b. False), k_lt = (\<lambda>a b. False), k_gt = (\<lambda>a b. False)\<rparr>
     k (Node nk nv l r) = None"
  by simp

section \<open>The claims\<close>

text \<open>
  Claim C1. For every sequence of keys inserted with \<open>operator[]\<close>, iterating from
  \<open>begin()\<close> to \<open>end()\<close> yields every stored key exactly once, in strictly ascending
  order.

  The code does not do this. \<open>operator*\<close> leaves \<open>current\<close> where it is, although the comment
  above it says that visiting a node sets \<open>current\<close> to the node's right child; so
  \<open>operator++\<close> pushes the node just visited, finds its left child null and pops the same
  node again. On the tree of the keys 5, 3, 8, 1, 4 the loop yields the pair of key 1 at
  every step, for any number of steps, and never reaches the end.
\<close>

theorem traversal_stuck:
  "\<forall>fuel. tree_traverse fuel (inserts (0::int) [5, 3, 8, 1, 4 :: int] tree_empty) =
           (replicate fuel (1, 0), OutOfFuel)"
proof
  fix fuel
  obtain n where n: "scenario_tree = Some n" by (simp add: scenario_tree_def)
  obtain m where m: "current (tree_begin (Some n)) = Some m"
    and tr: "tree_traverse fuel (Some n) = (replicate fuel (key m, val m), OutOfFuel)"
    using tree_traverse_Some[of n fuel] by blast
  from m have "m = Node 1 0 None None" using begin_scenario by (simp add: n)
  with tr show "tree_traverse fuel (inserts (0::int) [5, 3, 8, 1, 4 :: int] tree_empty) =
           (replicate fuel (1, 0), OutOfFuel)"
    by (simp add: inserts_scenario n)
qed

text \<open>
  Claim C2. For a positioned iterator, visiting a node sets the cursor to that node's right
  child before the advance algorithm runs again, so that after one increment the
  next-smallest unvisited node is current; in particular \<open>current\<close> after visit and advance
  is never the node just visited.

  The code does not do this. On the tree of the keys 5 and 8 the start iterator is at the
  node of key 5; \<open>operator*\<close> returns its pair and leaves the iterator as it was, with
  \<open>current\<close> at the node of key 5 and not at its right child; \<open>operator++\<close> then ends at the
  node of key 5 again, not at the node of key 8.
\<close>

theorem visit_keeps_current:
  "tree_begin (inserts (0::int) [5, 8 :: int] tree_empty) =
     \<lparr>current = Some (Node 5 0 None (Some (Node 8 0 None None))), working_stack = []\<rparr> \<and>
   op_deref (tree_begin (inserts (0::int) [5, 8 :: int] tree_empty)) =
     (Inr (5, 0), tree_begin (inserts (0::int) [5, 8 :: int] tree_empty)) \<and>
   op_incr (snd (op_deref (tree_begin (inserts (0::int) [5, 8 :: int] tree_empty)))) =
     \<lparr>current = Some (Node 5 0 None (Some (Node 8 0 None None))), working_stack = []\<rparr>"
  by (simp add: inserts_def tree_empty_def tree_index_simps tree_begin_def iterator_new_def
        incr_def op_deref_def op_incr_def)

text \<open>
  Claim C3. For every tree and every key \<open>k\<close> stored at a node with both children,
  \<open>erase(k)\<close> copies the key and value of the in-order predecessor (the node reached by
  descending as far right as possible in the left subtree) into the matching node, which
  stays in place, then erases the predecessor's key from the left subtree; the resulting
  tree holds exactly the previous keys without \<open>k\<close>.

  At the matching node the result is the node itself with the key and value of
  \<open>rightmost\<close> of the left child, the left subtree with that key erased, and the right
  child untouched. In a tree with the ordering invariant that key is the greatest key below
  \<open>k\<close>, and erasing \<open>k\<close> from any such tree removes \<open>k\<close> from the keys, and the pairs of key
  \<open>k\<close> from the stored pairs, and nothing else.
\<close>

theorem erase_two_children:
  assumes "bst t"
  shows "node_erase k (Node k v (Some ln) (Some rn)) =
           Some (Node (key (rightmost ln)) (val (rightmost ln))
                   (node_erase (key (rightmost ln)) ln) (Some rn)) \<and>
         (bst (Some (Node k v (Some ln) (Some rn))) \<longrightarrow>
            key (rightmost ln) =
              Max {x \<in> tree_keys (Some (Node k v (Some ln) (Some rn))). x < k}) \<and>
         tree_keys (tree_erase k t) = tree_keys t - {k} \<and>
         tree_entries (tree_erase k t) = {e \<in> tree_entries t. fst e \<noteq> k}"
proof (intro conjI impI)
  show "node_erase k (Node k v (Some ln) (Some rn)) =
           Some (Node (key (rightmost ln)) (val (rightmost ln))
                   (node_erase (key (rightmost ln)) ln) (Some rn))"
    by (simp add: Let_def)
next
  assume b: "bst (Some (Node k v (Some ln) (Some rn)))"
  then have "{x \<in> tree_keys (Some (Node k v (Some ln) (Some rn))). x < k} = tree_keys (Some ln)"
    by (auto dest: less_asym)
  moreover have "bst (Some ln)" using b by simp
  ultimately show "key (rightmost ln) =
      Max {x \<in> tree_keys (Some (Node k v (Some ln) (Some rn))). x < k}"
    by (simp only: rightmost_Max)
next
  show "tree_keys (tree_erase k t) = tree_keys t - {k}"
    using assms by (rule tree_keys_erase)
next
  show "tree_entries (tree_erase k t) = {e \<in> tree_entries t. fst e \<noteq> k}"
    using assms by (rule tree_entries_erase)
qed

theorem erase_two_children_witness:
  "bst scenario_tree \<and>
   node_erase 5 (Node 5 0 (Some scenario_left) (Some scenario_right)) =
     Some (Node 4 0 (Some (Node 3 0 (Some (Node 1 0 None None)) None)) (Some scenario_right)) \<and>
   key (rightmost scenario_left) = Max {x \<in> tree_keys scenario_tree. x < 5} \<and>
   tree_keys (tree_erase 5 scenario_tree) = tree_keys scenario_tree - {5}"
proof -
  have h: "bst scenario_tree" by (rule bst_scenario)
  have r: "rightmost scenario_left = Node 4 0 None None" by (simp add: scenario_defs)
  have e: "node_erase 4 scenario_left = Some (Node 3 0 (Some (Node 1 0 None None)) None)"
    by (simp add: scenario_defs)
  show ?thesis
    using h erase_two_children[OF h, of 5 0 scenario_left scenario_right]
    by (simp add: r e flip: scenario_tree_def)
qed

text \<open>
  Claim C4. The ordering invariant (at every node, the keys of the left subtree are below
  the node's key and the keys of the right subtree above it) holds for the empty tree and
  is preserved by every public operation: \<open>operator[]\<close>, \<open>contains\<close> and \<open>erase\<close>, and in
  particular by the two-child case of \<open>erase\<close>.

  \<open>contains\<close> returns a truth value and no tree. The invariant also survives an assignment
  through any reference.
\<close>

theorem bst_preserved:
  "bst tree_empty \<and>
   (bst t \<longrightarrow> bst (fst (tree_index d k t))) \<and>
   (bst t \<longrightarrow> bst (tree_ref_set p w t)) \<and>
   (bst t \<longrightarrow> bst (tree_erase k t)) \<and>
   (bst (Some (Node k v (Some ln) (Some rn))) \<longrightarrow>
      bst (node_erase k (Node k v (Some ln) (Some rn))))"
proof (intro conjI impI)
  show "bst tree_empty" by (simp add: tree_empty_def)
  show "bst (fst (tree_index d k t))" if "bst t" using that by (rule bst_index)
  show "bst (tree_ref_set p w t)" if "bst t" using that by (rule bst_ref_set)
  show "bst (tree_erase k t)" if "bst t" using that by (rule bst_erase)
  show "bst (node_erase k (Node k v (Some ln) (Some rn)))"
    if "bst (Some (Node k v (Some ln) (Some rn)))"
    using bst_erase[OF that, of k] by (simp only: tree_erase_def option.case)
qed

theorem bst_preserved_witness:
  "bst scenario_tree \<and>
   bst (fst (tree_index 0 7 scenario_tree)) \<and>
   bst (tree_ref_set [GoLeft] 9 scenario_tree) \<and>
   bst (tree_erase 5 scenario_tree) \<and>
   bst (node_erase 5 (Node 5 0 (Some scenario_left) (Some scenario_right)))"
proof -
  have h: "bst scenario_tree" by (rule bst_scenario)
  have h': "bst (Some (Node 5 0 (Some scenario_left) (Some scenario_right)))"
    using h by (simp only: scenario_tree_def)
  show ?thesis
    using h h'
      bst_preserved[where t = scenario_tree and d = 0 and k = 7 and p = "[GoLeft]" and w = 9
        and v = 0 and ln = scenario_left and rn = scenario_right]
      bst_preserved[where t = scenario_tree and d = 0 and k = 5 and p = "[GoLeft]" and w = 9
        and v = 0 and ln = scenario_left and rn = scenario_right]
    by blast
qed

text \<open>
  Claim C5. For every tree and key \<open>k\<close>, after \<open>erase(k)\<close> the call \<open>contains(k)\<close> returns
  false and a traversal no longer yields \<open>k\<close>; erasing \<open>k\<close> twice in a row gives the same
  tree as erasing it once.

  The trees are those with the ordering invariant, which every tree built by the public
  operations has. A traversal is the loop over the iterators, whatever the number of steps
  it is given.
\<close>

theorem erase_removes:
  assumes "bst t"
  shows "tree_contains k (tree_erase k t) = Some False \<and>
         (\<forall>fuel. k \<notin> fst ` set (fst (tree_traverse fuel (tree_erase k t)))) \<and>
         tree_erase k (tree_erase k t) = tree_erase k t"
proof -
  have nk: "k \<notin> tree_keys (tree_erase k t)"
    using assms by (simp add: tree_keys_erase)
  have "tree_contains k (tree_erase k t) = Some (k \<in> tree_keys (tree_erase k t))"
    using assms by (intro tree_contains_keys bst_erase)
  then have c: "tree_contains k (tree_erase k t) = Some False" using nk by simp
  have tr: "k \<notin> fst ` set (fst (tree_traverse fuel (tree_erase k t)))" for fuel
  proof
    assume "k \<in> fst ` set (fst (tree_traverse fuel (tree_erase k t)))"
    then have "k \<in> fst ` tree_entries (tree_erase k t)"
      using tree_traverse_entries[of fuel "tree_erase k t"] by blast
    then show False using nk by (simp add: tree_keys_def)
  qed
  have "tree_erase k (tree_erase k t) = tree_erase k t"
    using nk by (rule tree_erase_absent)
  then show ?thesis using c tr by blast
qed

theorem erase_removes_witness:
  "bst scenario_tree \<and>
   tree_contains 5 (tree_erase 5 scenario_tree) = Some False \<and>
   (\<forall>fuel. 5 \<notin> fst ` set (fst (tree_traverse fuel (tree_erase 5 scenario_tree)))) \<and>
   tree_erase 5 (tree_erase 5 scenario_tree) = tree_erase 5 scenario_tree"
proof -
  have h: "bst scenario_tree" by (rule bst_scenario)
  show ?thesis using h erase_removes[OF h, of 5] by blast
qed

text \<open>
  Claim C6. For every tree and every key \<open>k\<close> not present in it, \<open>erase(k)\<close> is a no-op and
  not an error: the tree is structurally unchanged, so the traversal output and the results
  of \<open>contains\<close> for all keys are the same before and after the call.
\<close>

theorem erase_absent_noop:
  assumes "k \<notin> tree_keys t"
  shows "tree_erase k t = t \<and>
         (\<forall>k'. tree_contains k' (tree_erase k t) = tree_contains k' t) \<and>
         (\<forall>fuel. tree_traverse fuel (tree_erase k t) = tree_traverse fuel t)"
  using tree_erase_absent[OF assms] by simp

theorem erase_absent_noop_witness:
  "42 \<notin> tree_keys scenario_tree \<and>
   tree_erase 42 scenario_tree = scenario_tree \<and>
   tree_contains 3 (tree_erase 42 scenario_tree) = tree_contains 3 scenario_tree \<and>
   tree_traverse 4 (tree_erase 42 scenario_tree) = tree_traverse 4 scenario_tree"
proof -
  have h: "42 \<notin> tree_keys scenario_tree" by (simp add: scenario_defs)
  show ?thesis using h erase_absent_noop[OF h] by simp
qed

text \<open>
  Claim C7. For every tree and key \<open>k\<close>, after \<open>operator[]\<close> on \<open>k\<close> and the assignment of
  \<open>v\<close> through the returned reference, \<open>contains(k)\<close> returns true and a traversal yields the
  pair \<open>(k, v)\<close>; \<open>operator[]\<close> creates exactly one node when \<open>k\<close> is absent and never
  overwrites the value when \<open>k\<close> is present.

  What is stored is as claimed (\<open>round_trip_storage\<close>). The traversal is not: the iterator
  never leaves the node of the smallest key, so a pair with another key is never yielded.
  After \<open>t[5] = 7\<close> on the tree holding the key 1, the tree holds \<open>(5, 7)\<close> and \<open>contains(5)\<close>
  is true, but the loop yields \<open>(1, 0)\<close> at every step.
\<close>

theorem round_trip_traversal_stuck:
  "tree_assign (0::int) (5::int) 7 (inserts 0 [1] tree_empty) =
     Some (Node 1 0 None (Some (Node 5 7 None None))) \<and>
   tree_contains (5::int) (tree_assign (0::int) 5 7 (inserts 0 [1] tree_empty)) = Some True \<and>
   (\<forall>fuel. tree_traverse fuel (tree_assign (0::int) (5::int) 7 (inserts 0 [1] tree_empty)) =
             (replicate fuel (1, 0), OutOfFuel)) \<and>
   (\<forall>fuel. (5, 7) \<notin> set (fst (tree_traverse fuel
               (tree_assign (0::int) (5::int) 7 (inserts 0 [1] tree_empty)))))"
proof -
  let ?n = "Node (1::int) (0::int) None (Some (Node 5 7 None None))"
  have t: "tree_assign (0::int) (5::int) 7 (inserts 0 [1] tree_empty) = Some ?n"
    by (simp add: inserts_def tree_empty_def tree_index_simps tree_assign_simps)
  have c: "current (tree_begin (Some ?n)) = Some ?n"
    by (simp add: tree_begin_def iterator_new_def incr_def)
  have tr: "tree_traverse fuel (Some ?n) = (replicate fuel (1, 0), OutOfFuel)" for fuel
    using tree_traverse_Some[of ?n fuel] c by auto
  have "tree_contains 5 (Some ?n) = Some True"
    by (simp add: tree_contains_simps)
  then show ?thesis unfolding t using tr by simp
qed

text \<open>
  Claim C8. Dereferencing an iterator returns a copy of the current node's (key, value)
  pair when \<open>current\<close> is non-null, and signals a logic error if and only if \<open>current\<close> is
  null; the failing dereference leaves the iterator and the tree unchanged.
\<close>

theorem deref_result:
  "(current it = Some n \<longrightarrow> op_deref it = (Inr (key n, val n), it)) \<and>
   ((\<exists>e. fst (op_deref it) = Inl e) \<longleftrightarrow> current it = None) \<and>
   (current it = None \<longrightarrow> op_deref it = (Inl LogicError, it))"
  by (cases "current it") (simp_all add: op_deref_def)

theorem deref_result_witness:
  "current (tree_begin scenario_tree) = Some (Node 1 0 None None) \<and>
   op_deref (tree_begin scenario_tree) = (Inr (1, 0), tree_begin scenario_tree) \<and>
   current (tree_end scenario_tree) = None \<and>
   op_deref (tree_end scenario_tree) = (Inl LogicError, tree_end scenario_tree)"
proof -
  have c: "current (tree_begin scenario_tree) = Some (Node 1 0 None None)"
    by (rule begin_scenario)
  have e: "current (tree_end scenario_tree) = None" by simp
  show ?thesis
    using c e deref_result[of "tree_begin scenario_tree" "Node 1 0 None None"]
      deref_result[of "tree_end scenario_tree"]
    by simp
qed

text \<open>
  Claim C9. \<open>BinaryTreeNode::contains\<close> handles every comparison outcome: when the
  comparisons of \<open>K\<close> satisfy trichotomy, the function is total; it returns true exactly on
  a key match and false when the child it needs is absent, and the path that leaves the
  function without a return statement is unreachable.

  Under trichotomy the result is never \<open>None\<close>; a result of true comes from a node whose
  key compares equal; an equal key at the node gives true; a missing child on the side of
  the comparison gives false; and the third test always succeeds when it is reached, so the
  function is the three-way case distinction.
\<close>

theorem contains_total:
  assumes "trichotomy ops"
  shows "(\<exists>b. node_contains ops k n = Some b) \<and>
         (node_contains ops k n = Some True \<longrightarrow> (\<exists>e \<in> node_entries n. k_eq ops k (fst e))) \<and>
         (k_eq ops k (key n) \<longrightarrow> node_contains ops k n = Some True) \<and>
         (k_lt ops k (key n) \<and> left n = None \<longrightarrow> node_contains ops k n = Some False) \<and>
         (k_gt ops k (key n) \<and> right n = None \<longrightarrow> node_contains ops k n = Some False) \<and>
         node_contains ops k (Node nk nv l r) =
           (if k_eq ops k nk then Some True
            else if k_lt ops k nk then
              (case l of None \<Rightarrow> Some False | Some ln \<Rightarrow> node_contains ops k ln)
            else (case r of None \<Rightarrow> Some False | Some rn \<Rightarrow> node_contains ops k rn))"
proof -
  have tri: "\<And>a b. (k_lt ops a b \<and> \<not> k_eq ops a b \<and> \<not> k_gt ops a b) \<or>
            (\<not> k_lt ops a b \<and> k_eq ops a b \<and> \<not> k_gt ops a b) \<or>
            (\<not> k_lt ops a b \<and> \<not> k_eq ops a b \<and> k_gt ops a b)"
    using assms unfolding trichotomy_def by blast
  have a: "k_eq ops k (key n) \<longrightarrow> node_contains ops k n = Some True"
    by (cases n) simp
  have b: "k_lt ops k (key n) \<and> left n = None \<longrightarrow> node_contains ops k n = Some False"
    using tri[of k "key n"] by (cases n) auto
  have c: "k_gt ops k (key n) \<and> right n = None \<longrightarrow> node_contains ops k n = Some False"
    using tri[of k "key n"] by (cases n) auto
  show ?thesis
    using node_contains_total[OF assms, of k n] node_contains_True[OF assms, of k n]
      node_contains_step[OF assms, of k nk nv l r] a b c
    by blast
qed

theorem contains_total_witness:
  "trichotomy (std_ops :: int comparisons) \<and>
   (\<exists>b. node_contains std_ops 4 (Node 5 0 (Some scenario_left) (Some scenario_right)) = Some b) \<and>
   node_contains std_ops 4 (Node 5 0 (Some scenario_left) (Some scenario_right)) =
     node_contains std_ops 4 scenario_left"
proof -
  have h: "trichotomy (std_ops :: int comparisons)" by (rule trichotomy_std_ops)
  show ?thesis
    using h contains_total[OF h, of 4 "Node 5 0 (Some scenario_left) (Some scenario_right)"
        5 0 "Some scenario_left" "Some scenario_right"]
    by (simp add: std_ops_def)
qed

text \<open>
  Claim C10. For every iterator in the exhausted state (\<open>current\<close> null and the stack
  empty), \<open>operator++\<close> raises no error and leaves the iterator exhausted: exhaustion is an
  absorbing state of the step function.
\<close>

theorem exhausted_absorbing:
  assumes "current it = None \<and> working_stack it = []"
  shows "op_incr it = it \<and> current (op_incr it) = None \<and> working_stack (op_incr it) = []"
  using assms by (simp add: op_incr_def incr_def)

theorem exhausted_absorbing_witness:
  "current (tree_end scenario_tree) = None \<and> working_stack (tree_end scenario_tree) = [] \<and>
   op_incr (tree_end scenario_tree) = tree_end scenario_tree"
proof -
  have h: "current (tree_end scenario_tree) = None \<and> working_stack (tree_end scenario_tree) = []"
    by simp
  show ?thesis using h exhausted_absorbing[OF h] by simp
qed

end
